theory Spec2Isabelle
  imports Main
begin

section \<open>Frame extraction from the videos of a bucket prefix\<close>

text \<open>
  A shallow embedding of \<^verbatim>\<open>scripts/extract_frames_from_videos.py\<close>. The script lists the
  videos under a prefix, downloads each one to \<^verbatim>\<open>/tmp\<close>, reads it frame by frame, uploads
  every frame whose ordinal is a multiple of the sampling rate, removes its local files and
  appends the download path to a cache file.

  The local file system and the bucket are explicit state; every exception of the script
  is a \<open>Raise\<close> carrying the state reached when it was raised. The S3 client, the video
  decoder and the image encoder are parameters (\<open>env\<close>).
\<close>

subsection \<open>State, errors, external collaborators\<close>

type_synonym path = string
type_synonym bytes = string
type_synonym frame = string

datatype error =
    ClientError string
  | ZeroDivisionError
  | FileNotFoundError string
  | SystemExit int

text \<open>Every call made on the S3 client, in the order of the calls.\<close>

datatype s3_call =
    ListObjects string string
  | DownloadFile string string path
  | UploadFile path string string

record world =
  files :: "path \<rightharpoonup> bytes"
  objects :: "string \<times> string \<rightharpoonup> bytes"
  calls :: "s3_call list"

datatype 'a result = Return 'a world | Raise error world

text \<open>
  A capture as \<^verbatim>\<open>cv2.VideoCapture\<close> gives it: whether the file could be opened, and the
  results of the successive \<^verbatim>\<open>cap.read()\<close> calls (\<open>Some frame\<close> when a frame is grabbed,
  \<open>None\<close> when \<^verbatim>\<open>ret\<close> is false; past the end of the list every read fails).
\<close>

record capture =
  isOpened :: bool
  stream :: "frame option list"

text \<open>
  The collaborators: the answer of \<^verbatim>\<open>list_objects\<close> (\<open>None\<close>: the call raises;
  \<open>Some None\<close>: a response without \<^verbatim>\<open>"Contents"\<close>), the downloads and uploads that
  raise, the decoder and the JPEG encoder.
\<close>

record env =
  list_objects :: "string \<Rightarrow> string \<Rightarrow> string list option option"
  download_fails :: "string \<Rightarrow> string \<Rightarrow> bool"
  upload_fails :: "string \<Rightarrow> string \<Rightarrow> bool"
  VideoCapture :: "bytes option \<Rightarrow> capture"
  imencode :: "frame \<Rightarrow> bytes"

subsection \<open>Python and library primitives\<close>

definition newline :: char where
  "newline = CHR 0x0A"

definition carriage_return :: char where
  "carriage_return = CHR 0x0D"

text \<open>\<^verbatim>\<open>os.path.basename\<close> (posixpath): everything after the last slash.\<close>

definition basename :: "string \<Rightarrow> string" where
  "basename p = rev (takeWhile (\<lambda>c. c \<noteq> CHR ''/'') (rev p))"

text \<open>\<^verbatim>\<open>str\<close> of a non-negative integer, as the f-string renders \<^verbatim>\<open>frame_index\<close>.\<close>

definition digit :: "nat \<Rightarrow> char" where
  "digit d = ''0123456789'' ! d"

fun str :: "nat \<Rightarrow> string" where
  "str n = (if n < 10 then [digit n] else str (n div 10) @ [digit (n mod 10)])"

declare str.simps [simp del]

text \<open>\<^verbatim>\<open>a % b\<close> on Python integers: the sign follows the divisor; zero divisor raises.\<close>

definition py_mod :: "int \<Rightarrow> int \<Rightarrow> int option" where
  "py_mod a b = (if b = 0 then None else Some (a mod b))"

text \<open>
  Reading a text file opened with \<^verbatim>\<open>"rt"\<close>: universal newlines translate
  \<^verbatim>\<open>\r\n\<close> and \<^verbatim>\<open>\r\<close> to \<^verbatim>\<open>\n\<close>, and \<^verbatim>\<open>readlines\<close> keeps the terminator of each line.
\<close>

fun translate_newlines :: "string \<Rightarrow> string" where
  "translate_newlines [] = []"
| "translate_newlines [c] = (if c = carriage_return then [newline] else [c])"
| "translate_newlines (c # d # cs) =
     (if c = carriage_return then
        (if d = newline then newline # translate_newlines cs
         else newline # translate_newlines (d # cs))
      else c # translate_newlines (d # cs))"

fun split_keepends :: "string \<Rightarrow> string \<Rightarrow> string list" where
  "split_keepends cur [] = (if cur = [] then [] else [cur])"
| "split_keepends cur (c # cs) =
     (if c = newline then (cur @ [c]) # split_keepends [] cs
      else split_keepends (cur @ [c]) cs)"

definition readlines :: "bytes \<Rightarrow> string list" where
  "readlines content = split_keepends [] (translate_newlines content)"

definition os_path_exists :: "world \<Rightarrow> path \<Rightarrow> bool" where
  "os_path_exists w p = (files w p \<noteq> None)"

definition os_remove :: "path \<Rightarrow> world \<Rightarrow> unit result" where
  "os_remove p w =
     (case files w p of
        None \<Rightarrow> Raise (FileNotFoundError p) w
      | Some _ \<Rightarrow> Return () (w\<lparr>files := (files w)(p := None)\<rparr>))"

text \<open>
  \<^verbatim>\<open>cv2.imwrite\<close>: the encoded frame becomes the content of the file (writing a grabbed
  frame to \<^verbatim>\<open>/tmp\<close> is taken to succeed).
\<close>

definition imwrite :: "env \<Rightarrow> path \<Rightarrow> frame \<Rightarrow> world \<Rightarrow> world" where
  "imwrite e p fr w = w\<lparr>files := (files w)(p \<mapsto> imencode e fr)\<rparr>"

text \<open>
  The two transfers of the S3 client. Each call is logged. A download raises when the
  object does not exist or when the environment makes it fail, and then writes no local
  file; an upload raises when the environment makes it fail, and then stores no object.
\<close>

definition download_file :: "env \<Rightarrow> string \<Rightarrow> string \<Rightarrow> path \<Rightarrow> world \<Rightarrow> unit result" where
  "download_file e bucket key p w =
     (let w1 = w\<lparr>calls := calls w @ [DownloadFile bucket key p]\<rparr> in
      case objects w (bucket, key) of
        None \<Rightarrow> Raise (ClientError key) w1
      | Some b \<Rightarrow>
          if download_fails e bucket key then Raise (ClientError key) w1
          else Return () (w1\<lparr>files := (files w1)(p \<mapsto> b)\<rparr>))"

definition upload_file :: "env \<Rightarrow> path \<Rightarrow> string \<Rightarrow> string \<Rightarrow> world \<Rightarrow> unit result" where
  "upload_file e p bucket key w =
     (case files w p of
        None \<Rightarrow> Raise (FileNotFoundError p) w
      | Some b \<Rightarrow>
          let w1 = w\<lparr>calls := calls w @ [UploadFile p bucket key]\<rparr> in
          if upload_fails e bucket key then Raise (ClientError key) w1
          else Return () (w1\<lparr>objects := (objects w1)((bucket, key) \<mapsto> b)\<rparr>))"

subsection \<open>The script\<close>

definition get_video_keys :: "env \<Rightarrow> string \<Rightarrow> string \<Rightarrow> world \<Rightarrow> string list result" where
  "get_video_keys e bucket prefix w =
     (let w1 = w\<lparr>calls := calls w @ [ListObjects bucket prefix]\<rparr> in
      case list_objects e bucket prefix of
        None \<Rightarrow> Raise (ClientError prefix) w1
      | Some response \<Rightarrow>
          Return (case response of None \<Rightarrow> [] | Some contents \<Rightarrow> contents) w1)"

definition cache_path :: path where
  "cache_path = ''/tmp/extract_frames_from_videos_cache.txt''"

definition download_path_of :: "string \<Rightarrow> path" where
  "download_path_of video_name = ''/tmp/'' @ video_name"

text \<open>
  Lines 51 to 55 of \<open>main\<close>, the test that skips a video: the download path is looked up
  in the list of lines of the cache file.
\<close>

definition isComplete :: "world \<Rightarrow> string \<Rightarrow> bool" where
  "isComplete w video_name =
     (if os_path_exists w cache_path then
        (case files w cache_path of
           None \<Rightarrow> False
         | Some content \<Rightarrow> download_path_of video_name \<in> set (readlines content))
      else False)"

text \<open>Lines 85 and 86 of \<open>main\<close>: the download path and a newline are appended.\<close>

definition markComplete :: "world \<Rightarrow> string \<Rightarrow> world" where
  "markComplete w video_name =
     w\<lparr>files := (files w)(cache_path \<mapsto>
          (case files w cache_path of None \<Rightarrow> [] | Some content \<Rightarrow> content)
          @ download_path_of video_name @ [newline])\<rparr>"

definition frame_name_of :: "string \<Rightarrow> nat \<Rightarrow> string" where
  "frame_name_of video_name frame_index = video_name @ ''_frame_'' @ str frame_index @ ''.jpg''"

definition upload_key_of :: "string \<Rightarrow> string \<Rightarrow> nat \<Rightarrow> string" where
  "upload_key_of output_prefix video_name frame_index =
     output_prefix @ ''/'' @ frame_name_of video_name frame_index"

text \<open>Lines 71 to 78: write the frame, upload it, remove the local image.\<close>

definition emit_frame :: "env \<Rightarrow> string \<Rightarrow> string \<Rightarrow> string \<Rightarrow> nat \<Rightarrow> frame \<Rightarrow> world \<Rightarrow> unit result" where
  "emit_frame e bucket output_prefix video_name frame_index fr w =
     (let frame_name = frame_name_of video_name frame_index;
          frame_path = ''/tmp/'' @ frame_name;
          w1 = imwrite e frame_path fr w;
          upload_key = upload_key_of output_prefix video_name frame_index
      in case upload_file e frame_path bucket upload_key w1 of
           Raise err w2 \<Rightarrow> Raise err w2
         | Return _ w2 \<Rightarrow> os_remove frame_path w2)"

text \<open>
  Lines 70 to 81: the body of the frame loop after a successful read. The counters
  \<^verbatim>\<open>i\<close> and \<^verbatim>\<open>frame_index\<close> start at 0 and are only ever incremented, so they are
  natural numbers; the sampling rate is any integer.
\<close>

definition loop_body ::
  "env \<Rightarrow> string \<Rightarrow> string \<Rightarrow> string \<Rightarrow> int \<Rightarrow> frame \<Rightarrow> nat \<Rightarrow> nat \<Rightarrow> world \<Rightarrow> (nat \<times> nat) result" where
  "loop_body e bucket output_prefix video_name sampling_rate fr i frame_index w =
     (case py_mod (int i) sampling_rate of
        None \<Rightarrow> Raise ZeroDivisionError w
      | Some r \<Rightarrow>
          if r = 0 then
            (case emit_frame e bucket output_prefix video_name frame_index fr w of
               Raise err w1 \<Rightarrow> Raise err w1
             | Return _ w1 \<Rightarrow> Return (i + 1, frame_index + 1) w1)
          else Return (i + 1, frame_index) w)"

text \<open>
  Lines 63 to 81, for an opened capture: the loop ends at the first read that grabs no
  frame. It returns the final \<^verbatim>\<open>i\<close> and \<^verbatim>\<open>frame_index\<close>.
\<close>

fun frame_loop ::
  "env \<Rightarrow> string \<Rightarrow> string \<Rightarrow> string \<Rightarrow> int \<Rightarrow> frame option list \<Rightarrow> nat \<Rightarrow> nat \<Rightarrow> world \<Rightarrow> (nat \<times> nat) result" where
  "frame_loop e bucket output_prefix video_name sampling_rate [] i frame_index w =
     Return (i, frame_index) w"
| "frame_loop e bucket output_prefix video_name sampling_rate (None # rest) i frame_index w =
     Return (i, frame_index) w"
| "frame_loop e bucket output_prefix video_name sampling_rate (Some fr # rest) i frame_index w =
     (case loop_body e bucket output_prefix video_name sampling_rate fr i frame_index w of
        Raise err w1 \<Rightarrow> Raise err w1
      | Return (i1, frame_index1) w1 \<Rightarrow>
          frame_loop e bucket output_prefix video_name sampling_rate rest i1 frame_index1 w1)"

text \<open>
  The pairs \<^verbatim>\<open>(i, frame_index)\<close> at the start of each iteration of the frame loop, the
  last one being the iteration that breaks or raises.
\<close>

fun iterations ::
  "env \<Rightarrow> string \<Rightarrow> string \<Rightarrow> string \<Rightarrow> int \<Rightarrow> frame option list \<Rightarrow> nat \<Rightarrow> nat \<Rightarrow> world \<Rightarrow> (nat \<times> nat) list" where
  "iterations e bucket output_prefix video_name sampling_rate [] i frame_index w =
     [(i, frame_index)]"
| "iterations e bucket output_prefix video_name sampling_rate (None # rest) i frame_index w =
     [(i, frame_index)]"
| "iterations e bucket output_prefix video_name sampling_rate (Some fr # rest) i frame_index w =
     (i, frame_index) #
     (case loop_body e bucket output_prefix video_name sampling_rate fr i frame_index w of
        Raise err w1 \<Rightarrow> []
      | Return (i1, frame_index1) w1 \<Rightarrow>
          iterations e bucket output_prefix video_name sampling_rate rest i1 frame_index1 w1)"

text \<open>Lines 46 to 86: the body of the loop over the video keys.\<close>

definition process_video :: "env \<Rightarrow> string \<Rightarrow> string \<Rightarrow> int \<Rightarrow> string \<Rightarrow> world \<Rightarrow> unit result" where
  "process_video e bucket output_prefix sampling_rate vk w =
     (let video_name = basename vk;
          download_path = download_path_of video_name
      in if isComplete w video_name then Return () w
         else
           (case download_file e bucket vk download_path w of
              Raise err w1 \<Rightarrow> Raise err w1
            | Return _ w1 \<Rightarrow>
                let cap = VideoCapture e (files w1 download_path) in
                (case (if isOpened cap
                       then frame_loop e bucket output_prefix video_name sampling_rate
                              (stream cap) 0 0 w1
                       else Return (0, 0) w1) of
                   Raise err w2 \<Rightarrow> Raise err w2
                 | Return _ w2 \<Rightarrow>
                     (case os_remove download_path w2 of
                        Raise err w3 \<Rightarrow> Raise err w3
                      | Return _ w3 \<Rightarrow> Return () (markComplete w3 video_name)))))"

fun for_video_keys :: "env \<Rightarrow> string \<Rightarrow> string \<Rightarrow> int \<Rightarrow> string list \<Rightarrow> world \<Rightarrow> unit result" where
  "for_video_keys e bucket output_prefix sampling_rate [] w = Return () w"
| "for_video_keys e bucket output_prefix sampling_rate (vk # vks) w =
     (case process_video e bucket output_prefix sampling_rate vk w of
        Raise err w1 \<Rightarrow> Raise err w1
      | Return _ w1 \<Rightarrow> for_video_keys e bucket output_prefix sampling_rate vks w1)"

definition main :: "env \<Rightarrow> string \<Rightarrow> string \<Rightarrow> string \<Rightarrow> int \<Rightarrow> world \<Rightarrow> unit result" where
  "main e bucket input_prefix output_prefix sampling_rate w =
     (case get_video_keys e bucket input_prefix w of
        Raise err w1 \<Rightarrow> Raise err w1
      | Return video_keys w1 \<Rightarrow>
          for_video_keys e bucket output_prefix sampling_rate video_keys w1)"

text \<open>
  Lines 89 to 97: the parsed command line. The three names are required; the sampling
  rate is an integer that defaults to 10.
\<close>

record args =
  arg_bucket :: "string option"
  arg_input_prefix :: "string option"
  arg_output_prefix :: "string option"
  arg_sampling_rate :: "int option"

definition script :: "env \<Rightarrow> args \<Rightarrow> world \<Rightarrow> unit result" where
  "script e a w =
     (case (arg_bucket a, arg_input_prefix a, arg_output_prefix a) of
        (Some bucket, Some input_prefix, Some output_prefix) \<Rightarrow>
          main e bucket input_prefix output_prefix
            (case arg_sampling_rate a of None \<Rightarrow> 10 | Some n \<Rightarrow> n) w
      | _ \<Rightarrow> Raise (SystemExit 2) w)"

subsection \<open>Reference functions for the statements\<close>

text \<open>What a run left: the final state, and the exception that ended it, if any.\<close>

fun world_of :: "'a result \<Rightarrow> world" where
  "world_of (Return x w) = w"
| "world_of (Raise err w) = w"

fun raised :: "'a result \<Rightarrow> error option" where
  "raised (Return x w) = None"
| "raised (Raise err w) = Some err"

text \<open>The keys of the upload calls and of the download calls of a call log.\<close>

fun upload_key :: "s3_call \<Rightarrow> string list" where
  "upload_key (UploadFile p bucket key) = [key]"
| "upload_key (DownloadFile bucket key p) = []"
| "upload_key (ListObjects bucket prefix) = []"

definition uploaded_keys :: "s3_call list \<Rightarrow> string list" where
  "uploaded_keys cs = concat (map upload_key cs)"



text \<open>
  The frames the reads grab before the first read that grabs none, and among them the
  ones at an ordinal \<open>j\<close> with \<^verbatim>\<open>j % sampling_rate == 0\<close>, the ordinal of the first read
  being \<open>i\<close>.
\<close>

definition grabbed :: "frame option list \<Rightarrow> frame list" where
  "grabbed rs = map the (takeWhile (\<lambda>r. r \<noteq> None) rs)"

fun sampled :: "int \<Rightarrow> nat \<Rightarrow> frame option list \<Rightarrow> frame list" where
  "sampled n i [] = []"
| "sampled n i (None # rest) = []"
| "sampled n i (Some fr # rest) =
     (if py_mod (int i) n = Some 0 then fr # sampled n (Suc i) rest else sampled n (Suc i) rest)"

text \<open>The reads the frame loop gets from the capture of a downloaded file.\<close>

definition decoded :: "env \<Rightarrow> bytes \<Rightarrow> frame option list" where
  "decoded e content =
     (let cap = VideoCapture e (Some content) in if isOpened cap then stream cap else [])"

definition frame_path_of :: "string \<Rightarrow> nat \<Rightarrow> path" where
  "frame_path_of video_name k = ''/tmp/'' @ frame_name_of video_name k"

text \<open>The state after one frame was written, uploaded and removed without an exception.\<close>

definition emitted :: "env \<Rightarrow> string \<Rightarrow> string \<Rightarrow> string \<Rightarrow> nat \<Rightarrow> frame \<Rightarrow> world \<Rightarrow> world" where
  "emitted e bucket output_prefix video_name k fr w =
     w\<lparr>files := (files w)(frame_path_of video_name k := None),
       objects := (objects w)((bucket, upload_key_of output_prefix video_name k) \<mapsto> imencode e fr),
       calls := calls w @ [UploadFile (frame_path_of video_name k) bucket
                             (upload_key_of output_prefix video_name k)]\<rparr>"

fun emit_all :: "env \<Rightarrow> string \<Rightarrow> string \<Rightarrow> string \<Rightarrow> nat \<Rightarrow> frame list \<Rightarrow> world \<Rightarrow> world" where
  "emit_all e bucket output_prefix video_name k [] w = w"
| "emit_all e bucket output_prefix video_name k (fr # frs) w =
     emit_all e bucket output_prefix video_name (Suc k) frs
       (emitted e bucket output_prefix video_name k fr w)"

text \<open>The state after a download that succeeded.\<close>

definition downloaded :: "string \<Rightarrow> string \<Rightarrow> bytes \<Rightarrow> world \<Rightarrow> world" where
  "downloaded bucket vk content w =
     w\<lparr>calls := calls w @ [DownloadFile bucket vk (download_path_of (basename vk))],
       files := (files w)(download_path_of (basename vk) \<mapsto> content)\<rparr>"

text \<open>The state after a pass over one video in which nothing raised.\<close>

definition completed :: "env \<Rightarrow> string \<Rightarrow> string \<Rightarrow> int \<Rightarrow> string \<Rightarrow> bytes \<Rightarrow> world \<Rightarrow> world" where
  "completed e bucket output_prefix sampling_rate vk content w =
     (let w2 = emit_all e bucket output_prefix (basename vk) 0
                 (sampled sampling_rate 0 (decoded e content))
                 (downloaded bucket vk content w)
      in markComplete (w2\<lparr>files := (files w2)(download_path_of (basename vk) := None)\<rparr>)
           (basename vk))"

text \<open>
  Nothing raises in the pass over a video of the given content: the download succeeds,
  no frame is read with a sampling rate of zero, every upload of a sampled frame succeeds.
\<close>

definition pass_ok :: "env \<Rightarrow> string \<Rightarrow> string \<Rightarrow> int \<Rightarrow> string \<Rightarrow> bytes \<Rightarrow> bool" where
  "pass_ok e bucket output_prefix sampling_rate vk content =
     (\<not> download_fails e bucket vk \<and>
      (sampling_rate \<noteq> 0 \<or> grabbed (decoded e content) = []) \<and>
      (\<forall>k < length (sampled sampling_rate 0 (decoded e content)).
         \<not> upload_fails e bucket (upload_key_of output_prefix (basename vk) k)))"

subsection \<open>A concrete bucket, decoder and file system\<close>

text \<open>
  A toy decoder for the concrete runs: every byte of a video is one frame, and the byte
  \<^verbatim>\<open>!\<close> is a frame that cannot be read. A file that does not exist cannot be opened.
\<close>

definition demo_capture :: "bytes option \<Rightarrow> capture" where
  "demo_capture c =
     (case c of
        None \<Rightarrow> \<lparr>isOpened = False, stream = []\<rparr>
      | Some content \<Rightarrow>
          \<lparr>isOpened = True,
           stream = map (\<lambda>x. if x = CHR ''!'' then None else Some [x]) content\<rparr>)"

definition demo_env :: "string list \<Rightarrow> string list \<Rightarrow> string list \<Rightarrow> env" where
  "demo_env listing failing_downloads failing_uploads =
     \<lparr>list_objects = (\<lambda>bucket prefix. Some (Some listing)),
      download_fails = (\<lambda>bucket key. key \<in> set failing_downloads),
      upload_fails = (\<lambda>bucket key. key \<in> set failing_uploads),
      VideoCapture = demo_capture,
      imencode = (\<lambda>fr. ''jpg:'' @ fr)\<rparr>"

definition demo_world :: "(string \<times> bytes) list \<Rightarrow> world" where
  "demo_world videos =
     \<lparr>files = Map.empty,
      objects = map_of (map (\<lambda>(key, content). ((''bucket'', key), content)) videos),
      calls = []\<rparr>"

definition demo_args :: "int \<Rightarrow> args" where
  "demo_args n =
     \<lparr>arg_bucket = Some ''bucket'', arg_input_prefix = Some ''input'',
      arg_output_prefix = Some ''frames'', arg_sampling_rate = Some n\<rparr>"


section \<open>Lemmas\<close>

subsection \<open>Rendering of the frame index and the names built from it\<close>

lemma digit_inj: "d < 10 \<Longrightarrow> d' < 10 \<Longrightarrow> digit d = digit d' \<Longrightarrow> d = d'"
  unfolding digit_def
  by (auto simp: less_Suc_eq numeral_eq_Suc)

lemma str_nonempty: "str n \<noteq> []"
  by (subst str.simps) simp

lemma str_inj: "str n = str m \<Longrightarrow> n = m"
proof (induction n arbitrary: m rule: str.induct)
  case (1 n)
  show ?case
  proof (cases "n < 10")
    case True
    note n = this
    show ?thesis
    proof (cases "m < 10")
      case True
      with n "1.prems" show ?thesis
        by (simp add: str.simps [of n] str.simps [of m] digit_inj)
    next
      case False
      with n "1.prems" str_nonempty [of "m div 10"] show ?thesis
        by (simp add: str.simps [of n] str.simps [of m])
    qed
  next
    case False
    note n = this
    show ?thesis
    proof (cases "m < 10")
      case True
      with n "1.prems" str_nonempty [of "n div 10"] show ?thesis
        by (simp add: str.simps [of n] str.simps [of m])
    next
      case False
      with n "1.prems" have a: "str (n div 10) = str (m div 10)" and b: "digit (n mod 10) = digit (m mod 10)"
        by (simp_all add: str.simps [of n] str.simps [of m])
      from "1.IH" [OF n a] have "n div 10 = m div 10" .
      moreover from b have "n mod 10 = m mod 10" by (intro digit_inj) simp_all
      ultimately show ?thesis by (metis div_mult_mod_eq)
    qed
  qed
qed

lemma upload_key_of_inj: "upload_key_of p v i = upload_key_of p v j \<Longrightarrow> i = j"
  by (simp add: upload_key_of_def frame_name_of_def str_inj)

lemma frame_path_of_inj: "frame_path_of v i = frame_path_of v j \<Longrightarrow> i = j"
  by (simp add: frame_path_of_def frame_name_of_def str_inj)

lemma frame_path_not_download: "frame_path_of v k \<noteq> download_path_of v"
  by (simp add: frame_path_of_def frame_name_of_def download_path_of_def)

lemma frame_path_not_cache: "frame_path_of v k \<noteq> cache_path"
proof
  assume "frame_path_of v k = cache_path"
  then have "last (frame_path_of v k) = last cache_path" by simp
  then show False by (simp add: frame_path_of_def frame_name_of_def cache_path_def)
qed

subsection \<open>The frame loop\<close>

lemma emit_frame_ok:
  "\<not> upload_fails e b (upload_key_of p v k) \<Longrightarrow>
   emit_frame e b p v k fr w = Return () (emitted e b p v k fr w)"
  by (simp add: emit_frame_def emitted_def frame_path_of_def imwrite_def upload_file_def
      os_remove_def Let_def)

lemma emit_frame_fails:
  "upload_fails e b (upload_key_of p v k) \<Longrightarrow>
   emit_frame e b p v k fr w =
     Raise (ClientError (upload_key_of p v k))
       (w\<lparr>files := (files w)(frame_path_of v k \<mapsto> imencode e fr),
          calls := calls w @ [UploadFile (frame_path_of v k) b (upload_key_of p v k)]\<rparr>)"
  by (simp add: emit_frame_def frame_path_of_def imwrite_def upload_file_def Let_def)

lemma frame_loop_ok:
  "n \<noteq> 0 \<Longrightarrow>
   \<forall>k < length (sampled n i rs). \<not> upload_fails e b (upload_key_of p v (fi + k)) \<Longrightarrow>
   frame_loop e b p v n rs i fi w =
     Return (i + length (grabbed rs), fi + length (sampled n i rs))
       (emit_all e b p v fi (sampled n i rs) w)"
proof (induction rs arbitrary: i fi w)
  case Nil
  then show ?case by (simp add: grabbed_def)
next
  case (Cons r rs)
  show ?case
  proof (cases r)
    case None
    then show ?thesis by (simp add: grabbed_def)
  next
    case (Some fr)
    show ?thesis
    proof (cases "py_mod (int i) n = Some 0")
      case True
      with Cons.prems Some have ok: "\<not> upload_fails e b (upload_key_of p v fi)"
        and rest: "\<forall>k < length (sampled n (Suc i) rs). \<not> upload_fails e b (upload_key_of p v (Suc fi + k))"
        by auto
      from Cons.IH [OF Cons.prems(1) rest] True Some ok show ?thesis
        by (simp add: loop_body_def emit_frame_ok grabbed_def)
    next
      case False
      with Cons.prems Some
      have rest: "\<forall>k < length (sampled n (Suc i) rs). \<not> upload_fails e b (upload_key_of p v (fi + k))"
        by auto
      from Cons.IH [OF Cons.prems(1) rest] False Some Cons.prems(1) show ?thesis
        by (simp add: loop_body_def grabbed_def py_mod_def)
    qed
  qed
qed

lemma frame_loop_Return:
  "frame_loop e b p v n rs i fi w = Return x w' \<Longrightarrow>
   (n \<noteq> 0 \<or> grabbed rs = []) \<and>
   (\<forall>k < length (sampled n i rs). \<not> upload_fails e b (upload_key_of p v (fi + k)))"
proof (induction rs arbitrary: i fi w)
  case Nil
  then show ?case by (simp add: grabbed_def)
next
  case (Cons r rs)
  show ?case
  proof (cases r)
    case None
    then show ?thesis by (simp add: grabbed_def)
  next
    case (Some fr)
    from Cons.prems Some have n: "n \<noteq> 0"
      by (auto simp: loop_body_def py_mod_def)
    show ?thesis
    proof (cases "py_mod (int i) n = Some 0")
      case True
      with Cons.prems Some have ok: "\<not> upload_fails e b (upload_key_of p v fi)"
        by (auto simp: loop_body_def emit_frame_fails)
      with Cons.prems Some True
      have "frame_loop e b p v n rs (Suc i) (Suc fi) (emitted e b p v fi fr w) = Return x w'"
        by (simp add: loop_body_def emit_frame_ok)
      from Cons.IH [OF this] ok n Some True show ?thesis
        by (auto simp: less_Suc_eq_0_disj)
    next
      case False
      with Cons.prems Some n
      have "frame_loop e b p v n rs (Suc i) fi w = Return x w'"
        by (simp add: loop_body_def py_mod_def)
      from Cons.IH [OF this] n Some False show ?thesis
        by auto
    qed
  qed
qed

lemma frame_loop_zero:
  "frame_loop e b p v 0 rs i fi w =
     (if grabbed rs = [] then Return (i, fi) w else Raise ZeroDivisionError w)"
proof (cases rs)
  case Nil
  then show ?thesis by (simp add: grabbed_def)
next
  case (Cons r rest)
  then show ?thesis
    by (cases r) (simp_all add: grabbed_def loop_body_def py_mod_def)
qed

lemma upt_shift: "[k..<k + Suc m] = k # [Suc k..<Suc k + m]"
  by (subst upt_rec) simp

lemma calls_emit_all:
  "calls (emit_all e b p v k frs w) =
     calls w @ map (\<lambda>j. UploadFile (frame_path_of v j) b (upload_key_of p v j)) [k..<k + length frs]"
proof (induction frs arbitrary: k w)
  case Nil
  show ?case by simp
next
  case (Cons fr frs)
  have "[k..<k + length (fr # frs)] = k # [Suc k..<Suc k + length frs]"
    using upt_shift [of k "length frs"] by simp
  with Cons.IH [of "Suc k" "emitted e b p v k fr w"] show ?case
    by (simp add: emitted_def)
qed

lemma files_emit_all:
  "files (emit_all e b p v k frs w) q =
     (if q \<in> frame_path_of v ` {k..<k + length frs} then None else files w q)"
proof (induction frs arbitrary: k w)
  case Nil
  show ?case by simp
next
  case (Cons fr frs)
  have s: "{k..<k + length (fr # frs)} = insert k {Suc k..<Suc k + length frs}"
    by auto
  show ?case
    unfolding s using Cons.IH [of "Suc k" "emitted e b p v k fr w"]
    by (auto simp: emitted_def)
qed

lemma objects_emit_all_other:
  "\<forall>j < length frs. x \<noteq> (b, upload_key_of p v (k + j)) \<Longrightarrow>
   objects (emit_all e b p v k frs w) x = objects w x"
proof (induction frs arbitrary: k w)
  case Nil
  show ?case by simp
next
  case (Cons fr frs)
  from Cons.prems have "x \<noteq> (b, upload_key_of p v k)" by force
  moreover from Cons.prems have "\<forall>j < length frs. x \<noteq> (b, upload_key_of p v (Suc k + j))"
    by force
  ultimately show ?case
    using Cons.IH [of "Suc k" "emitted e b p v k fr w"] by (simp add: emitted_def)
qed

lemma objects_emit_all:
  "j < length frs \<Longrightarrow>
   objects (emit_all e b p v k frs w) (b, upload_key_of p v (k + j)) = Some (imencode e (frs ! j))"
proof (induction frs arbitrary: k j w)
  case Nil
  then show ?case by simp
next
  case (Cons fr frs)
  show ?case
  proof (cases j)
    case 0
    have "\<forall>i < length frs. (b, upload_key_of p v k) \<noteq> (b, upload_key_of p v (Suc k + i))"
      by (auto dest: upload_key_of_inj)
    from objects_emit_all_other [OF this] 0 show ?thesis
      by (simp add: emitted_def)
  next
    case (Suc j')
    with Cons.prems have "j' < length frs" by simp
    from Cons.IH [OF this, of "Suc k" "emitted e b p v k fr w"] Suc show ?thesis
      by simp
  qed
qed

lemma sampled_filter:
  "sampled n i rs =
     map (\<lambda>j. grabbed rs ! (j - i))
       (filter (\<lambda>j. py_mod (int j) n = Some 0) [i..<i + length (grabbed rs)])"
proof (induction n i rs rule: sampled.induct)
  case (1 n i)
  show ?case by (simp add: grabbed_def)
next
  case (2 n i rest)
  show ?case by (simp add: grabbed_def)
next
  case (3 n i fr rest)
  define ds where "ds = [Suc i..<Suc i + length (grabbed rest)]"
  have g: "grabbed (Some fr # rest) = fr # grabbed rest"
    by (simp add: grabbed_def)
  have u: "[i..<i + length (grabbed (Some fr # rest))] = i # ds"
    unfolding g ds_def using upt_shift [of i "length (grabbed rest)"] by simp
  have m: "map (\<lambda>j. (fr # grabbed rest) ! (j - i)) (filter P ds)
         = map (\<lambda>j. grabbed rest ! (j - Suc i)) (filter P ds)" for P
  proof (rule map_cong [OF refl])
    fix j
    assume "j \<in> set (filter P ds)"
    then have "Suc i \<le> j" by (auto simp: ds_def)
    then have "j - i = Suc (j - Suc i)" by simp
    then show "(fr # grabbed rest) ! (j - i) = grabbed rest ! (j - Suc i)" by simp
  qed
  have ih: "sampled n (Suc i) rest
      = map (\<lambda>j. grabbed rest ! (j - Suc i)) (filter (\<lambda>j. py_mod (int j) n = Some 0) ds)"
    using 3 unfolding ds_def by (cases "py_mod (int i) n = Some 0") blast+
  show ?case
    unfolding u by (simp add: g m ih)
qed

lemma ceil_step:
  fixes N D :: nat
  assumes "0 < N"
  shows "(Suc D + N - 1) div N = (if D mod N = 0 then Suc ((D + N - 1) div N) else (D + N - 1) div N)"
    and "D mod N = 0 \<Longrightarrow> (D + N - 1) div N * N = D"
proof -
  define q r where "q = D div N" and "r = D mod N"
  have D: "D = q * N + r" and r: "r < N"
    using assms by (simp_all add: q_def r_def)
  have up: "(Suc D + N - 1) div N = Suc q"
  proof -
    have "Suc D + N - 1 = Suc q * N + r" using D by simp
    then show ?thesis using r by (metis div_mult_self3 div_less add.right_neutral assms less_numeral_extra(3))
  qed
  have lo: "(D + N - 1) div N = (if r = 0 then q else Suc q)"
  proof (cases "r = 0")
    case True
    then have "D + N - 1 = q * N + (N - 1)" using D assms by simp
    then have "(D + N - 1) div N = (q * N + (N - 1)) div N" by (rule arg_cong)
    also have "\<dots> = q + (N - 1) div N" by (rule div_mult_self3) (use assms in simp)
    also have "\<dots> = q" using assms by simp
    finally show ?thesis using True by simp
  next
    case False
    then have "D + N - 1 = Suc q * N + (r - 1)" using D by simp
    then have "(D + N - 1) div N = (Suc q * N + (r - 1)) div N" by (rule arg_cong)
    also have "\<dots> = Suc q + (r - 1) div N" by (rule div_mult_self3) (use assms in simp)
    also have "\<dots> = Suc q" using r by simp
    finally show ?thesis using False by simp
  qed
  show "(Suc D + N - 1) div N = (if D mod N = 0 then Suc ((D + N - 1) div N) else (D + N - 1) div N)"
    using up lo by (simp add: r_def)
  show "D mod N = 0 \<Longrightarrow> (D + N - 1) div N * N = D"
  proof -
    assume "D mod N = 0"
    then have "r = 0" by (simp add: r_def)
    with lo D show ?thesis by simp
  qed
qed

lemma filter_multiples:
  fixes N :: nat
  assumes "0 < N"
  shows "filter (\<lambda>j. j mod N = 0) [0..<D] = map (\<lambda>k. k * N) [0..<(D + N - 1) div N]"
proof (induction D)
  case 0
  from assms show ?case by simp
next
  case (Suc D)
  show ?case
  proof (cases "D mod N = 0")
    case True
    with ceil_step [OF assms, of D]
    have c: "(Suc D + N - 1) div N = Suc ((D + N - 1) div N)" and d: "(D + N - 1) div N * N = D"
      by simp_all
    show ?thesis unfolding c using Suc True d by simp
  next
    case False
    with ceil_step(1) [OF assms, of D]
    have c: "(Suc D + N - 1) div N = (D + N - 1) div N" by simp
    show ?thesis unfolding c using Suc False by simp
  qed
qed

lemma py_mod_pos: "0 < n \<Longrightarrow> (py_mod (int j) n = Some 0) = (j mod nat n = 0)"
proof -
  assume n: "0 < n"
  then have "int j mod n = int (j mod nat n)"
    by (simp add: zmod_int)
  with n show ?thesis by (simp add: py_mod_def)
qed

lemma sampled_every_nth:
  assumes "0 < n"
  shows "sampled n 0 rs =
     map (\<lambda>k. grabbed rs ! (k * nat n)) [0..<(length (grabbed rs) + nat n - 1) div nat n]"
proof -
  from assms have N: "0 < nat n" by simp
  have "sampled n 0 rs = map (\<lambda>j. grabbed rs ! j) (filter (\<lambda>j. j mod nat n = 0) [0..<length (grabbed rs)])"
    using sampled_filter [of n 0 rs] by (simp add: py_mod_pos [OF assms])
  also have "\<dots> = map (\<lambda>k. grabbed rs ! (k * nat n)) [0..<(length (grabbed rs) + nat n - 1) div nat n]"
    unfolding filter_multiples [OF N] by (simp add: o_def)
  finally show ?thesis .
qed

subsection \<open>One pass over a video\<close>

lemma download_file_ok:
  "objects w (b, vk) = Some content \<Longrightarrow> \<not> download_fails e b vk \<Longrightarrow>
   download_file e b vk (download_path_of (basename vk)) w = Return () (downloaded b vk content w)"
  by (simp add: download_file_def downloaded_def Let_def)

lemma process_video_unfold:
  assumes nc: "\<not> isComplete w (basename vk)"
    and obj: "objects w (b, vk) = Some content"
    and dl: "\<not> download_fails e b vk"
  shows "process_video e b p n vk w =
     (case frame_loop e b p (basename vk) n (decoded e content) 0 0 (downloaded b vk content w) of
        Raise err w2 \<Rightarrow> Raise err w2
      | Return x w2 \<Rightarrow>
          (case os_remove (download_path_of (basename vk)) w2 of
             Raise err w3 \<Rightarrow> Raise err w3
           | Return y w3 \<Rightarrow> Return () (markComplete w3 (basename vk))))"
proof -
  have f1: "files (downloaded b vk content w) (download_path_of (basename vk)) = Some content"
    by (simp add: downloaded_def)
  show ?thesis
  proof (cases "isOpened (VideoCapture e (Some content))")
    case True
    with nc show ?thesis
      unfolding process_video_def Let_def
      by (simp add: download_file_ok [OF obj dl] f1 decoded_def)
  next
    case False
    with nc show ?thesis
      unfolding process_video_def Let_def
      by (simp add: download_file_ok [OF obj dl] f1 decoded_def)
  qed
qed

lemma process_video_skip:
  "isComplete w (basename vk) \<Longrightarrow> process_video e b p n vk w = Return () w"
  by (simp add: process_video_def Let_def)

lemma process_video_ok:
  assumes nc: "\<not> isComplete w (basename vk)"
    and obj: "objects w (b, vk) = Some content"
    and ok: "pass_ok e b p n vk content"
  shows "process_video e b p n vk w = Return () (completed e b p n vk content w)"
proof -
  let ?v = "basename vk"
  let ?w1 = "downloaded b vk content w"
  let ?fs = "sampled n 0 (decoded e content)"
  from ok have dl: "\<not> download_fails e b vk"
    and up: "\<forall>k < length ?fs. \<not> upload_fails e b (upload_key_of p ?v (0 + k))"
    and nz: "n \<noteq> 0 \<or> grabbed (decoded e content) = []"
    by (simp_all add: pass_ok_def)
  have f1: "files ?w1 (download_path_of ?v) = Some content"
    by (simp add: downloaded_def)
  have loop: "frame_loop e b p ?v n (decoded e content) 0 0 ?w1
      = Return (length (grabbed (decoded e content)), length ?fs) (emit_all e b p ?v 0 ?fs ?w1)"
  proof (cases "n = 0")
    case False
    from frame_loop_ok [OF False up] show ?thesis by simp
  next
    case True
    with nz have g: "grabbed (decoded e content) = []" by simp
    then have "?fs = []" using sampled_filter [of n 0 "decoded e content"] by simp
    with True g show ?thesis by (simp add: frame_loop_zero)
  qed
  have f2: "files (emit_all e b p ?v 0 ?fs ?w1) (download_path_of ?v) = Some content"
    using f1 by (auto simp: files_emit_all frame_path_not_download [symmetric])
  show ?thesis
    unfolding process_video_unfold [OF nc obj dl]
    by (simp add: loop os_remove_def f2 completed_def Let_def)
qed

lemma process_video_Return:
  assumes nc: "\<not> isComplete w (basename vk)"
    and r: "process_video e b p n vk w = Return () w'"
  shows "\<exists>content. objects w (b, vk) = Some content \<and> pass_ok e b p n vk content \<and>
           w' = completed e b p n vk content w"
proof -
  let ?v = "basename vk"
  from r nc obtain content where obj: "objects w (b, vk) = Some content"
    by (cases "objects w (b, vk)") (auto simp: process_video_def Let_def download_file_def)
  from r nc obj have dl: "\<not> download_fails e b vk"
    by (auto simp: process_video_def Let_def download_file_def)
  let ?w1 = "downloaded b vk content w"
  have f1: "files ?w1 (download_path_of ?v) = Some content"
    by (simp add: downloaded_def)
  from r nc obtain x w2 where "frame_loop e b p ?v n (decoded e content) 0 0 ?w1 = Return x w2"
    unfolding process_video_unfold [OF nc obj dl]
    by (simp split: result.splits)
  from frame_loop_Return [OF this] dl have "pass_ok e b p n vk content"
    by (simp add: pass_ok_def)
  with process_video_ok [OF nc obj] r obj show ?thesis by auto
qed

subsection \<open>The cache file\<close>

lemma translate_newlines_last:
  "s \<noteq> [] \<Longrightarrow> last s = newline \<Longrightarrow>
   translate_newlines s \<noteq> [] \<and> last (translate_newlines s) = newline"
proof (induction s rule: translate_newlines.induct)
  case 1
  then show ?case by simp
next
  case (2 c)
  then show ?case by simp
next
  case (3 c d cs)
  then show ?case
    by (cases cs) (auto simp: newline_def carriage_return_def split: if_splits)
qed

lemma split_keepends_last:
  "(s = [] \<longrightarrow> cur = []) \<Longrightarrow> (s \<noteq> [] \<longrightarrow> last s = newline) \<Longrightarrow>
   l \<in> set (split_keepends cur s) \<Longrightarrow> l \<noteq> [] \<and> last l = newline"
proof (induction s arbitrary: cur)
  case Nil
  then show ?case by simp
next
  case (Cons c cs)
  show ?case
  proof (cases "c = newline")
    case True
    with Cons.prems(3) have "l = cur @ [c] \<or> l \<in> set (split_keepends [] cs)" by simp
    then show ?thesis
    proof
      assume "l = cur @ [c]"
      with True show ?thesis by simp
    next
      assume l: "l \<in> set (split_keepends [] cs)"
      from Cons.prems(2) have "cs \<noteq> [] \<longrightarrow> last cs = newline" by auto
      from Cons.IH [OF _ this l] show ?thesis by simp
    qed
  next
    case False
    with Cons.prems(3) have l: "l \<in> set (split_keepends (cur @ [c]) cs)" by simp
    from Cons.prems(2) False have ne: "cs \<noteq> []" by auto
    with Cons.prems(2) have "cs \<noteq> [] \<longrightarrow> last cs = newline" by auto
    from Cons.IH [OF _ this l] ne show ?thesis by simp
  qed
qed

lemma isComplete_after_any_mark:
  assumes "v = [] \<or> last v \<noteq> newline"
  shows "\<not> isComplete (markComplete w u) v"
proof
  assume c: "isComplete (markComplete w u) v"
  define content where
    "content = (case files w cache_path of None \<Rightarrow> [] | Some x \<Rightarrow> x) @ download_path_of u @ [newline]"
  have f: "files (markComplete w u) cache_path = Some content"
    by (simp add: markComplete_def content_def)
  have "content \<noteq> []" "last content = newline" by (simp_all add: content_def)
  from translate_newlines_last [OF this]
  have t: "translate_newlines content \<noteq> []" "last (translate_newlines content) = newline"
    by simp_all
  from c f have "download_path_of v \<in> set (split_keepends [] (translate_newlines content))"
    by (simp add: isComplete_def os_path_exists_def readlines_def)
  from split_keepends_last [OF _ _ this] t
  have "last (download_path_of v) = newline" by simp
  with assms show False
    by (cases "v = []") (simp_all add: download_path_of_def newline_def)
qed

subsection \<open>The state after a pass\<close>

lemma uploaded_keys_append: "uploaded_keys (xs @ ys) = uploaded_keys xs @ uploaded_keys ys"
  by (simp add: uploaded_keys_def)

lemma uploaded_keys_uploads: "uploaded_keys (map (\<lambda>j. UploadFile (f j) b (g j)) js) = map g js"
  by (induction js) (simp_all add: uploaded_keys_def)

lemma calls_completed:
  "calls (completed e b p n vk content w) =
     calls w @ DownloadFile b vk (download_path_of (basename vk)) #
       map (\<lambda>j. UploadFile (frame_path_of (basename vk) j) b (upload_key_of p (basename vk) j))
         [0..<length (sampled n 0 (decoded e content))]"
  by (simp add: completed_def Let_def markComplete_def calls_emit_all downloaded_def)

lemma uploaded_keys_completed:
  "uploaded_keys (drop (length (calls w)) (calls (completed e b p n vk content w))) =
     map (upload_key_of p (basename vk)) [0..<length (sampled n 0 (decoded e content))]"
  unfolding calls_completed
  by (simp add: uploaded_keys_def o_def)

lemma objects_completed:
  "objects (completed e b p n vk content w) =
     objects (emit_all e b p (basename vk) 0 (sampled n 0 (decoded e content)) (downloaded b vk content w))"
  by (simp add: completed_def Let_def markComplete_def)

lemma objects_completed_frame:
  "k < length (sampled n 0 (decoded e content)) \<Longrightarrow>
   objects (completed e b p n vk content w) (b, upload_key_of p (basename vk) k) =
     Some (imencode e (sampled n 0 (decoded e content) ! k))"
  unfolding objects_completed using objects_emit_all [of k _ e b p _ 0] by simp


subsection \<open>The counters of the frame loop\<close>

lemma loop_body_Return:
  "loop_body e b p v n fr i fi w = Return (i1, fi1) w1 \<Longrightarrow>
   i1 = Suc i \<and> fi1 = (if py_mod (int i) n = Some 0 then Suc fi else fi)"
  by (auto simp: loop_body_def split: option.splits if_splits result.splits)

lemma iterations_invariant:
  "fi = length (filter (\<lambda>j. py_mod (int j) n = Some 0) [0..<i]) \<Longrightarrow>
   (i', fi') \<in> set (iterations e b p v n rs i fi w) \<Longrightarrow>
   fi' = length (filter (\<lambda>j. py_mod (int j) n = Some 0) [0..<i'])"
proof (induction rs arbitrary: i fi w)
  case Nil
  then show ?case by simp
next
  case (Cons r rs)
  show ?case
  proof (cases r)
    case None
    with Cons.prems show ?thesis by simp
  next
    case (Some fr)
    show ?thesis
    proof (cases "loop_body e b p v n fr i fi w")
      case (Raise err w1)
      with Cons.prems Some show ?thesis by simp
    next
      case (Return x w1)
      obtain i1 fi1 where x: "x = (i1, fi1)" by (cases x)
      from loop_body_Return [OF Return [unfolded x]]
      have s: "i1 = Suc i" "fi1 = (if py_mod (int i) n = Some 0 then Suc fi else fi)" by simp_all
      with Cons.prems(1) have inv: "fi1 = length (filter (\<lambda>j. py_mod (int j) n = Some 0) [0..<i1])"
        by simp
      from Cons.prems(2) Some Return x
      have "(i', fi') = (i, fi) \<or> (i', fi') \<in> set (iterations e b p v n rs i1 fi1 w1)"
        by simp
      then show ?thesis
      proof
        assume "(i', fi') = (i, fi)"
        with Cons.prems(1) show ?thesis by simp
      next
        assume "(i', fi') \<in> set (iterations e b p v n rs i1 fi1 w1)"
        from Cons.IH [OF inv this] show ?thesis .
      qed
    qed
  qed
qed

subsection \<open>Results, ceilings, reads after a failed read\<close>


lemma unit_result_Return: "raised r = None \<Longrightarrow> r = Return () (world_of r)"
  by (cases r) simp_all

lemma index_below:
  fixes N D k :: nat
  assumes "0 < N" and "k < (D + N - 1) div N"
  shows "k * N < D"
proof -
  from assms(2) have "Suc k \<le> (D + N - 1) div N" by simp
  with assms(1) have "Suc k * N \<le> D + N - 1"
    by (simp add: less_eq_div_iff_mult_less_eq)
  with assms(1) show ?thesis by simp
qed

lemma ceil_bounds:
  fixes N D c :: nat
  assumes "0 < N" and "c = (D + N - 1) div N"
  shows "D \<le> c * N \<and> c * N < D + N"
proof -
  have "c * N \<le> D + N - 1"
    unfolding assms(2) by (rule div_times_less_eq_dividend)
  moreover have "D + N - 1 < Suc c * N"
    unfolding assms(2) using assms(1) by (simp add: dividend_less_div_times)
  ultimately show ?thesis using assms(1) by (simp add: algebra_simps) arith
qed


lemma grabbed_cut: "grabbed (map Some good @ None # later) = good"
  by (induction good) (simp_all add: grabbed_def)

subsection \<open>Local files a pass leaves alone\<close>

lemma emit_frame_files:
  "q \<noteq> frame_path_of v k \<Longrightarrow> files (world_of (emit_frame e b p v k fr w)) q = files w q"
  by (simp add: emit_frame_def frame_path_of_def imwrite_def upload_file_def os_remove_def Let_def)

lemma loop_body_files:
  "q \<noteq> frame_path_of v fi \<Longrightarrow> files (world_of (loop_body e b p v n fr i fi w)) q = files w q"
  using emit_frame_files [of q v fi e b p fr w]
  by (cases "emit_frame e b p v fi fr w") (simp_all add: loop_body_def split: option.splits)

lemma frame_loop_files:
  "\<forall>k. q \<noteq> frame_path_of v k \<Longrightarrow>
   files (world_of (frame_loop e b p v n rs i fi w)) q = files w q"
proof (induction rs arbitrary: i fi w)
  case Nil
  show ?case by simp
next
  case (Cons r rs)
  show ?case
  proof (cases r)
    case None
    then show ?thesis by simp
  next
    case (Some fr)
    from Cons.prems have q: "q \<noteq> frame_path_of v fi" by simp
    show ?thesis
    proof (cases "loop_body e b p v n fr i fi w")
      case (Raise err w1)
      with loop_body_files [OF q, of e b p n fr i w] Some show ?thesis by simp
    next
      case (Return x w1)
      obtain i1 fi1 where x: "x = (i1, fi1)" by (cases x)
      from loop_body_files [OF q, of e b p n fr i w] Return have "files w1 q = files w q" by simp
      with Cons.IH [OF Cons.prems, of i1 fi1 w1] Some Return x show ?thesis by simp
    qed
  qed
qed

lemma process_video_Raise_cache_file:
  assumes r: "process_video e b p n vk w = Raise err w'"
  shows "files w' cache_path = files w cache_path \<or>
         (download_path_of (basename vk) = cache_path \<and> files w' cache_path = objects w (b, vk))"
proof -
  let ?v = "basename vk"
  from r have nc: "\<not> isComplete w ?v"
    by (auto simp: process_video_def Let_def)
  show ?thesis
  proof (cases "objects w (b, vk)")
    case None
    with r nc show ?thesis
      by (auto simp: process_video_def Let_def download_file_def)
  next
    case (Some content)
    show ?thesis
    proof (cases "download_fails e b vk")
      case True
      with r nc Some show ?thesis
        by (auto simp: process_video_def Let_def download_file_def)
    next
      case False
      let ?w1 = "downloaded b vk content w"
      let ?r = "frame_loop e b p ?v n (decoded e content) 0 0 ?w1"
      have c: "files (world_of ?r) cache_path = files ?w1 cache_path"
        by (rule frame_loop_files) (simp add: frame_path_not_cache [symmetric])
      have c1: "files ?w1 cache_path =
          (if download_path_of ?v = cache_path then Some content else files w cache_path)"
        by (simp add: downloaded_def)
      from r have "files w' cache_path = files (world_of ?r) cache_path"
        unfolding process_video_unfold [OF nc Some False]
        by (cases ?r) (auto simp: os_remove_def split: option.splits)
      with c c1 Some show ?thesis by auto
    qed
  qed
qed

lemma process_video_not_Return:
  assumes nc: "\<not> isComplete w (basename vk)"
    and obj: "objects w (b, vk) = Some content"
    and bad: "\<not> pass_ok e b p n vk content"
  shows "\<exists>err w'. process_video e b p n vk w = Raise err w'"
proof (cases "process_video e b p n vk w")
  case (Return x w')
  with process_video_Return [OF nc, of e b p n w'] obj bad show ?thesis by auto
next
  case (Raise err w')
  then show ?thesis by blast
qed

lemma process_video_fails:
  assumes nc: "\<not> isComplete w (basename vk)"
    and fail: "objects w (b, vk) = None \<or> download_fails e b vk \<or>
               (\<exists>content. objects w (b, vk) = Some content \<and>
                  (\<exists>k < length (sampled n 0 (decoded e content)).
                     upload_fails e b (upload_key_of p (basename vk) k)))"
  shows "\<exists>err w'. process_video e b p n vk w = Raise err w'"
proof (cases "objects w (b, vk)")
  case None
  with nc show ?thesis by (simp add: process_video_def Let_def download_file_def)
next
  case (Some content)
  with fail have "\<not> pass_ok e b p n vk content" by (auto simp: pass_ok_def)
  from process_video_not_Return [OF nc Some this] show ?thesis .
qed

lemma for_video_keys_append:
  "for_video_keys e b p n pre w = Return () w1 \<Longrightarrow>
   for_video_keys e b p n (pre @ rest) w = for_video_keys e b p n rest w1"
proof (induction pre arbitrary: w)
  case Nil
  then show ?case by simp
next
  case (Cons vk pre)
  then show ?case by (cases "process_video e b p n vk w") simp_all
qed

subsection \<open>Negative and zero sampling rates\<close>

lemma py_mod_neg: "(py_mod a (- n) = Some 0) = (py_mod a n = Some 0)"
  by (simp add: py_mod_def mod_eq_0_iff_dvd)

lemma loop_body_neg: "loop_body e b p v (- n) fr i fi w = loop_body e b p v n fr i fi w"
proof -
  have "(int i mod - n = 0) = (int i mod n = 0)"
    by (simp add: mod_eq_0_iff_dvd)
  then show ?thesis by (simp add: loop_body_def py_mod_def)
qed

lemma frame_loop_neg: "frame_loop e b p v (- n) rs i fi w = frame_loop e b p v n rs i fi w"
proof (induction rs arbitrary: i fi w)
  case Nil
  show ?case by simp
next
  case (Cons r rs)
  then show ?case by (cases r) (simp_all add: loop_body_neg split: result.splits prod.splits)
qed

lemma process_video_neg: "process_video e b p (- n) vk w = process_video e b p n vk w"
  by (simp add: process_video_def Let_def frame_loop_neg cong: result.case_cong if_cong)

lemma for_video_keys_neg: "for_video_keys e b p (- n) vks w = for_video_keys e b p n vks w"
  by (induction vks arbitrary: w) (simp_all add: process_video_neg split: result.splits)

lemma main_neg: "main e b ip p (- n) w = main e b ip p n w"
  by (simp add: main_def for_video_keys_neg split: result.splits)

lemma uploaded_keys_download [simp]:
  "uploaded_keys (cs @ [DownloadFile b k q]) = uploaded_keys cs"
  by (simp add: uploaded_keys_def)

lemma process_video_zero:
  "objects (world_of (process_video e b p 0 vk w)) = objects w \<and>
   uploaded_keys (calls (world_of (process_video e b p 0 vk w))) = uploaded_keys (calls w)"
proof (cases "isComplete w (basename vk)")
  case True
  then show ?thesis by (simp add: process_video_skip)
next
  case nc: False
  show ?thesis
  proof (cases "objects w (b, vk)")
    case None
    with nc show ?thesis by (simp add: process_video_def Let_def download_file_def)
  next
    case (Some content)
    show ?thesis
    proof (cases "download_fails e b vk")
      case True
      with nc Some show ?thesis by (simp add: process_video_def Let_def download_file_def)
    next
      case False
      show ?thesis
        unfolding process_video_unfold [OF nc Some False] frame_loop_zero
        by (simp add: os_remove_def downloaded_def markComplete_def)
    qed
  qed
qed

lemma for_video_keys_zero:
  "objects (world_of (for_video_keys e b p 0 vks w)) = objects w \<and>
   uploaded_keys (calls (world_of (for_video_keys e b p 0 vks w))) = uploaded_keys (calls w)"
proof (induction vks arbitrary: w)
  case Nil
  show ?case by simp
next
  case (Cons vk vks)
  show ?case
  proof (cases "process_video e b p 0 vk w")
    case (Raise err w1)
    with process_video_zero [of e b p vk w] show ?thesis by simp
  next
    case (Return x w1)
    with process_video_zero [of e b p vk w] Cons.IH [of w1] show ?thesis by simp
  qed
qed

lemma main_zero:
  "objects (world_of (main e b ip p 0 w)) = objects w \<and>
   uploaded_keys (calls (world_of (main e b ip p 0 w))) = uploaded_keys (calls w)"
proof (cases "list_objects e b ip")
  case None
  then show ?thesis by (simp add: main_def get_video_keys_def uploaded_keys_def)
next
  case (Some response)
  with for_video_keys_zero [of e b p _ "w\<lparr>calls := calls w @ [ListObjects b ip]\<rparr>"]
  show ?thesis by (simp add: main_def get_video_keys_def uploaded_keys_def)
qed

subsection \<open>The call log only grows\<close>

lemma emit_frame_calls: "\<exists>cs. calls (world_of (emit_frame e b p v k fr w)) = calls w @ cs"
  by (simp add: emit_frame_def imwrite_def upload_file_def os_remove_def Let_def)

lemma loop_body_calls: "\<exists>cs. calls (world_of (loop_body e b p v n fr i fi w)) = calls w @ cs"
  using emit_frame_calls [of e b p v fi fr w]
  by (cases "emit_frame e b p v fi fr w") (auto simp: loop_body_def split: option.splits)

lemma frame_loop_calls: "\<exists>cs. calls (world_of (frame_loop e b p v n rs i fi w)) = calls w @ cs"
proof (induction rs arbitrary: i fi w)
  case Nil
  show ?case by simp
next
  case (Cons r rs)
  show ?case
  proof (cases r)
    case None
    then show ?thesis by simp
  next
    case (Some fr)
    show ?thesis
    proof (cases "loop_body e b p v n fr i fi w")
      case (Raise err w1)
      with loop_body_calls [of e b p v n fr i fi w] Some show ?thesis by simp
    next
      case (Return x w1)
      obtain i1 fi1 where x: "x = (i1, fi1)" by (cases x)
      from loop_body_calls [of e b p v n fr i fi w] Return
      obtain cs where "calls w1 = calls w @ cs" by auto
      with Cons.IH [of i1 fi1 w1] Some Return x show ?thesis by auto
    qed
  qed
qed

lemma process_video_calls: "\<exists>cs. calls (world_of (process_video e b p n vk w)) = calls w @ cs"
proof (cases "isComplete w (basename vk)")
  case True
  then show ?thesis by (simp add: process_video_skip)
next
  case nc: False
  show ?thesis
  proof (cases "objects w (b, vk)")
    case None
    with nc show ?thesis by (simp add: process_video_def Let_def download_file_def)
  next
    case (Some content)
    show ?thesis
    proof (cases "download_fails e b vk")
      case True
      with nc Some show ?thesis by (simp add: process_video_def Let_def download_file_def)
    next
      case False
      let ?r = "frame_loop e b p (basename vk) n (decoded e content) 0 0 (downloaded b vk content w)"
      from frame_loop_calls [of e b p "basename vk" n "decoded e content" 0 0 "downloaded b vk content w"]
      obtain cs where "calls (world_of ?r) = calls w @ DownloadFile b vk (download_path_of (basename vk)) # cs"
        by (auto simp: downloaded_def)
      then show ?thesis
        unfolding process_video_unfold [OF nc Some False]
        by (cases ?r) (auto simp: os_remove_def markComplete_def split: option.splits)
    qed
  qed
qed

lemma for_video_keys_calls:
  "\<exists>cs. calls (world_of (for_video_keys e b p n vks w)) = calls w @ cs"
proof (induction vks arbitrary: w)
  case Nil
  show ?case by simp
next
  case (Cons vk vks)
  show ?case
  proof (cases "process_video e b p n vk w")
    case (Raise err w1)
    with process_video_calls [of e b p n vk w] show ?thesis by simp
  next
    case (Return x w1)
    with process_video_calls [of e b p n vk w] obtain cs where "calls w1 = calls w @ cs" by auto
    with Cons.IH [of w1] Return show ?thesis by auto
  qed
qed

lemma main_lists_first:
  "\<exists>cs. calls (world_of (main e b ip p n w)) = calls w @ ListObjects b ip # cs"
proof (cases "list_objects e b ip")
  case None
  then show ?thesis by (simp add: main_def get_video_keys_def)
next
  case (Some response)
  with for_video_keys_calls [of e b p n _ "w\<lparr>calls := calls w @ [ListObjects b ip]\<rparr>"]
  show ?thesis by (auto simp: main_def get_video_keys_def)
qed


section \<open>The claims\<close>

text \<open>
  C1 (the code departs from it). The claim: the test of the cache file is false for a
  video before its download path is appended and true after, whatever line terminator
  the file format adds. In the script the lines read back keep their newline and the
  path looked up has none: with an empty \<^verbatim>\<open>/tmp\<close>, the test for \<^verbatim>\<open>a.mp4\<close> is false before
  the append and still false after it, the file then holding the one line
  \<^verbatim>\<open>/tmp/a.mp4\<close> with its newline.
\<close>

theorem ledger_entry_never_found:
  "isComplete (demo_world []) ''a.mp4'' = False \<and>
   isComplete (markComplete (demo_world []) ''a.mp4'') ''a.mp4'' = False \<and>
   files (markComplete (demo_world []) ''a.mp4'') cache_path = Some (''/tmp/a.mp4'' @ [newline]) \<and>
   readlines (''/tmp/a.mp4'' @ [newline]) = [''/tmp/a.mp4'' @ [newline]]"
  by code_simp

text \<open>
  C2 (the code departs from it). The claim: a second run over an unchanged input prefix,
  from the state the first run left, downloads and uploads nothing for the videos the
  first run completed. With one video of twenty frames and a sampling rate of 5, the first
  run ends without an exception and leaves the line of the video in the cache file; the
  second run lists the prefix, downloads the video again and uploads its four frames
  again. The test of the cache file never succeeds, as for C1.
\<close>

theorem second_run_downloads_again:
  "raised (main (demo_env [''input/a.mp4''] [] []) ''bucket'' ''input'' ''frames'' 5
       (demo_world [(''input/a.mp4'', ''abcdefghijklmnopqrst'')])) = None \<and>
   files (world_of (main (demo_env [''input/a.mp4''] [] []) ''bucket'' ''input'' ''frames'' 5
       (demo_world [(''input/a.mp4'', ''abcdefghijklmnopqrst'')]))) cache_path
     = Some (''/tmp/a.mp4'' @ [newline]) \<and>
   calls (world_of (main (demo_env [''input/a.mp4''] [] []) ''bucket'' ''input'' ''frames'' 5
       (world_of (main (demo_env [''input/a.mp4''] [] []) ''bucket'' ''input'' ''frames'' 5
          (demo_world [(''input/a.mp4'', ''abcdefghijklmnopqrst'')])))))
     = calls (world_of (main (demo_env [''input/a.mp4''] [] []) ''bucket'' ''input'' ''frames'' 5
          (demo_world [(''input/a.mp4'', ''abcdefghijklmnopqrst'')])))
       @ [ListObjects ''bucket'' ''input'',
          DownloadFile ''bucket'' ''input/a.mp4'' ''/tmp/a.mp4'',
          UploadFile ''/tmp/a.mp4_frame_0.jpg'' ''bucket'' ''frames/a.mp4_frame_0.jpg'',
          UploadFile ''/tmp/a.mp4_frame_1.jpg'' ''bucket'' ''frames/a.mp4_frame_1.jpg'',
          UploadFile ''/tmp/a.mp4_frame_2.jpg'' ''bucket'' ''frames/a.mp4_frame_2.jpg'',
          UploadFile ''/tmp/a.mp4_frame_3.jpg'' ''bucket'' ''frames/a.mp4_frame_3.jpg'']"
  by code_simp




text \<open>
  C4 (amended). A download or an upload that raises ends the whole run, not only the pass
  over its video. The videos before \<open>vk\<close> were processed without an exception; the
  pass over \<open>vk\<close> is not skipped, and its download fails (the object is missing or the
  call raises) or the upload of one of its sampled frames fails. Then the pass over
  \<open>vk\<close> raises, and the run over the whole listing raises the same error in the same
  state, whatever videos follow \<open>vk\<close>: none of them is processed. No line is appended to
  the cache file: its content is what the videos before \<open>vk\<close> left, except when \<open>vk\<close> is
  itself named as the cache file, where it is the content the download of \<open>vk\<close> wrote
  over it.
\<close>

theorem failure_aborts_run:
  assumes pre: "for_video_keys e bucket output_prefix sampling_rate before w = Return () w1"
    and nc: "\<not> isComplete w1 (basename vk)"
    and fail: "objects w1 (bucket, vk) = None \<or> download_fails e bucket vk \<or>
               (\<exists>content. objects w1 (bucket, vk) = Some content \<and>
                  (\<exists>k < length (sampled sampling_rate 0 (decoded e content)).
                     upload_fails e bucket (upload_key_of output_prefix (basename vk) k)))"
  shows "\<exists>err w2.
           process_video e bucket output_prefix sampling_rate vk w1 = Raise err w2 \<and>
           for_video_keys e bucket output_prefix sampling_rate (before @ vk # after) w = Raise err w2 \<and>
           (files w2 cache_path = files w1 cache_path \<or>
            (download_path_of (basename vk) = cache_path \<and>
             files w2 cache_path = objects w1 (bucket, vk)))"
proof -
  from process_video_fails [OF nc fail]
  obtain err w2 where r: "process_video e bucket output_prefix sampling_rate vk w1 = Raise err w2"
    by blast
  have "for_video_keys e bucket output_prefix sampling_rate (before @ vk # after) w = Raise err w2"
    unfolding for_video_keys_append [OF pre] using r by simp
  with r process_video_Raise_cache_file [OF r] show ?thesis by blast
qed

theorem failure_aborts_run_witness:
  "(\<exists>err w2.
     process_video (demo_env [''input/a.mp4'', ''input/b.mp4'', ''input/c.mp4''] [''input/b.mp4''] [])
         ''bucket'' ''frames'' 1 ''input/b.mp4''
         (world_of (for_video_keys
            (demo_env [''input/a.mp4'', ''input/b.mp4'', ''input/c.mp4''] [''input/b.mp4''] [])
            ''bucket'' ''frames'' 1 [''input/a.mp4'']
            (demo_world [(''input/a.mp4'', ''ab''), (''input/b.mp4'', ''cd''), (''input/c.mp4'', ''ef'')])))
       = Raise err w2 \<and>
     for_video_keys (demo_env [''input/a.mp4'', ''input/b.mp4'', ''input/c.mp4''] [''input/b.mp4''] [])
         ''bucket'' ''frames'' 1 ([''input/a.mp4''] @ ''input/b.mp4'' # [''input/c.mp4''])
         (demo_world [(''input/a.mp4'', ''ab''), (''input/b.mp4'', ''cd''), (''input/c.mp4'', ''ef'')])
       = Raise err w2 \<and>
     (files w2 cache_path =
        files (world_of (for_video_keys
            (demo_env [''input/a.mp4'', ''input/b.mp4'', ''input/c.mp4''] [''input/b.mp4''] [])
            ''bucket'' ''frames'' 1 [''input/a.mp4'']
            (demo_world [(''input/a.mp4'', ''ab''), (''input/b.mp4'', ''cd''), (''input/c.mp4'', ''ef'')])))
          cache_path \<or>
      (download_path_of (basename ''input/b.mp4'') = cache_path \<and>
       files w2 cache_path =
         objects (world_of (for_video_keys
            (demo_env [''input/a.mp4'', ''input/b.mp4'', ''input/c.mp4''] [''input/b.mp4''] [])
            ''bucket'' ''frames'' 1 [''input/a.mp4'']
            (demo_world [(''input/a.mp4'', ''ab''), (''input/b.mp4'', ''cd''), (''input/c.mp4'', ''ef'')])))
           (''bucket'', ''input/b.mp4'')))) \<and>
   (\<exists>err w2.
     process_video
         (demo_env [] [] [''frames/extract_frames_from_videos_cache.txt_frame_0.jpg''])
         ''bucket'' ''frames'' 1 ''input/extract_frames_from_videos_cache.txt''
         (world_of (for_video_keys
            (demo_env [] [] [''frames/extract_frames_from_videos_cache.txt_frame_0.jpg''])
            ''bucket'' ''frames'' 1 [''input/a.mp4'']
            (demo_world [(''input/a.mp4'', ''ab''),
               (''input/extract_frames_from_videos_cache.txt'', ''cd'')])))
       = Raise err w2 \<and>
     for_video_keys (demo_env [] [] [''frames/extract_frames_from_videos_cache.txt_frame_0.jpg''])
         ''bucket'' ''frames'' 1
         ([''input/a.mp4''] @ ''input/extract_frames_from_videos_cache.txt'' # [])
         (demo_world [(''input/a.mp4'', ''ab''),
            (''input/extract_frames_from_videos_cache.txt'', ''cd'')])
       = Raise err w2 \<and>
     (files w2 cache_path =
        files (world_of (for_video_keys
            (demo_env [] [] [''frames/extract_frames_from_videos_cache.txt_frame_0.jpg''])
            ''bucket'' ''frames'' 1 [''input/a.mp4'']
            (demo_world [(''input/a.mp4'', ''ab''),
               (''input/extract_frames_from_videos_cache.txt'', ''cd'')])))
          cache_path \<or>
      (download_path_of (basename ''input/extract_frames_from_videos_cache.txt'') = cache_path \<and>
       files w2 cache_path =
         objects (world_of (for_video_keys
            (demo_env [] [] [''frames/extract_frames_from_videos_cache.txt_frame_0.jpg''])
            ''bucket'' ''frames'' 1 [''input/a.mp4'']
            (demo_world [(''input/a.mp4'', ''ab''),
               (''input/extract_frames_from_videos_cache.txt'', ''cd'')])))
           (''bucket'', ''input/extract_frames_from_videos_cache.txt''))))"
proof -
  let ?e = "demo_env [''input/a.mp4'', ''input/b.mp4'', ''input/c.mp4''] [''input/b.mp4''] []"
  let ?w = "demo_world [(''input/a.mp4'', ''ab''), (''input/b.mp4'', ''cd''), (''input/c.mp4'', ''ef'')]"
  let ?r = "for_video_keys ?e ''bucket'' ''frames'' 1 [''input/a.mp4''] ?w"
  have "raised ?r = None" by code_simp
  then have pre: "?r = Return () (world_of ?r)" by (rule unit_result_Return)
  have nc: "\<not> isComplete (world_of ?r) (basename ''input/b.mp4'')" by code_simp
  have "download_fails ?e ''bucket'' ''input/b.mp4''" by code_simp
  then have fail: "objects (world_of ?r) (''bucket'', ''input/b.mp4'') = None \<or>
      download_fails ?e ''bucket'' ''input/b.mp4'' \<or>
      (\<exists>content. objects (world_of ?r) (''bucket'', ''input/b.mp4'') = Some content \<and>
         (\<exists>k < length (sampled 1 0 (decoded ?e content)).
            upload_fails ?e ''bucket'' (upload_key_of ''frames'' (basename ''input/b.mp4'') k)))"
    by blast
  note first = failure_aborts_run [OF pre nc fail, of "[''input/c.mp4'']"]
  let ?e' = "demo_env [] [] [''frames/extract_frames_from_videos_cache.txt_frame_0.jpg'']"
  let ?vk = "''input/extract_frames_from_videos_cache.txt''"
  let ?w' = "demo_world [(''input/a.mp4'', ''ab''), (?vk, ''cd'')]"
  let ?r' = "for_video_keys ?e' ''bucket'' ''frames'' 1 [''input/a.mp4''] ?w'"
  have "raised ?r' = None" by code_simp
  then have pre': "?r' = Return () (world_of ?r')" by (rule unit_result_Return)
  have nc': "\<not> isComplete (world_of ?r') (basename ?vk)" by code_simp
  have obj': "objects (world_of ?r') (''bucket'', ?vk) = Some ''cd''" by code_simp
  have k': "0 < length (sampled 1 0 (decoded ?e' ''cd''))" by code_simp
  have up': "upload_fails ?e' ''bucket'' (upload_key_of ''frames'' (basename ?vk) 0)" by code_simp
  from obj' k' up'
  have fail': "objects (world_of ?r') (''bucket'', ?vk) = None \<or>
      download_fails ?e' ''bucket'' ?vk \<or>
      (\<exists>content. objects (world_of ?r') (''bucket'', ?vk) = Some content \<and>
         (\<exists>k < length (sampled 1 0 (decoded ?e' content)).
            upload_fails ?e' ''bucket'' (upload_key_of ''frames'' (basename ?vk) k)))"
    by blast
  note second = failure_aborts_run [OF pre' nc' fail', of "[]"]
  from first second show ?thesis by (rule conjI)
qed

text \<open>
  The claim of C4 as written fails: of three videos the second fails to download; the run
  raises the error of that download, the third video is never downloaded, and the cache
  file holds the line of the first video only.
\<close>

theorem third_video_not_processed:
  "raised (main (demo_env [''input/a.mp4'', ''input/b.mp4'', ''input/c.mp4''] [''input/b.mp4''] [])
       ''bucket'' ''input'' ''frames'' 1
       (demo_world [(''input/a.mp4'', ''ab''), (''input/b.mp4'', ''cd''), (''input/c.mp4'', ''ef'')]))
     = Some (ClientError ''input/b.mp4'') \<and>
   calls (world_of (main (demo_env [''input/a.mp4'', ''input/b.mp4'', ''input/c.mp4''] [''input/b.mp4''] [])
       ''bucket'' ''input'' ''frames'' 1
       (demo_world [(''input/a.mp4'', ''ab''), (''input/b.mp4'', ''cd''), (''input/c.mp4'', ''ef'')])))
     = [ListObjects ''bucket'' ''input'',
        DownloadFile ''bucket'' ''input/a.mp4'' ''/tmp/a.mp4'',
        UploadFile ''/tmp/a.mp4_frame_0.jpg'' ''bucket'' ''frames/a.mp4_frame_0.jpg'',
        UploadFile ''/tmp/a.mp4_frame_1.jpg'' ''bucket'' ''frames/a.mp4_frame_1.jpg'',
        DownloadFile ''bucket'' ''input/b.mp4'' ''/tmp/b.mp4''] \<and>
   files (world_of (main (demo_env [''input/a.mp4'', ''input/b.mp4'', ''input/c.mp4''] [''input/b.mp4''] [])
       ''bucket'' ''input'' ''frames'' 1
       (demo_world [(''input/a.mp4'', ''ab''), (''input/b.mp4'', ''cd''), (''input/c.mp4'', ''ef'')])))
     cache_path = Some (''/tmp/a.mp4'' @ [newline])"
  by code_simp




text \<open>
  C6 (amended). A sampling rate of zero or below is not rejected: the script calls \<open>main\<close>
  with it, and the listing is always requested. With a rate of zero nothing is ever
  uploaded, since the first frame read raises \<^verbatim>\<open>ZeroDivisionError\<close> (after the download of
  its video). A negative rate behaves as its absolute value.
\<close>

theorem nonpositive_sampling_rate_not_rejected:
  assumes "arg_bucket a = Some bucket"
    and "arg_input_prefix a = Some input_prefix"
    and "arg_output_prefix a = Some output_prefix"
    and "arg_sampling_rate a = Some sampling_rate"
    and "sampling_rate \<le> 0"
  shows "script e a w = main e bucket input_prefix output_prefix sampling_rate w \<and>
         (\<exists>cs. calls (world_of (script e a w)) = calls w @ ListObjects bucket input_prefix # cs) \<and>
         (sampling_rate = 0 \<longrightarrow>
            objects (world_of (script e a w)) = objects w \<and>
            uploaded_keys (calls (world_of (script e a w))) = uploaded_keys (calls w) \<and>
            (\<forall>v fr rest i fi w1.
               frame_loop e bucket output_prefix v sampling_rate (Some fr # rest) i fi w1 =
                 Raise ZeroDivisionError w1)) \<and>
         (sampling_rate < 0 \<longrightarrow>
            script e a w = main e bucket input_prefix output_prefix (- sampling_rate) w)"
proof -
  have s: "script e a w = main e bucket input_prefix output_prefix sampling_rate w"
    using assms(1-4) by (simp add: script_def)
  have z: "frame_loop e bucket output_prefix v 0 (Some fr # rest) i fi w1 = Raise ZeroDivisionError w1"
    for v fr rest i fi w1
    by (simp add: loop_body_def py_mod_def)
  show ?thesis
    unfolding s
    using main_lists_first [of e bucket input_prefix output_prefix sampling_rate w]
      main_zero [of e bucket input_prefix output_prefix w]
      main_neg [of e bucket input_prefix output_prefix sampling_rate w] z
    by auto
qed

theorem nonpositive_sampling_rate_not_rejected_witness:
  "(script (demo_env [''input/a.mp4''] [] []) (demo_args 0)
        (demo_world [(''input/a.mp4'', ''abcdefghijklmnopqrst'')])
      = main (demo_env [''input/a.mp4''] [] []) ''bucket'' ''input'' ''frames'' 0
          (demo_world [(''input/a.mp4'', ''abcdefghijklmnopqrst'')]) \<and>
    (\<exists>cs. calls (world_of (script (demo_env [''input/a.mp4''] [] []) (demo_args 0)
              (demo_world [(''input/a.mp4'', ''abcdefghijklmnopqrst'')])))
         = calls (demo_world [(''input/a.mp4'', ''abcdefghijklmnopqrst'')])
           @ ListObjects ''bucket'' ''input'' # cs) \<and>
    objects (world_of (script (demo_env [''input/a.mp4''] [] []) (demo_args 0)
        (demo_world [(''input/a.mp4'', ''abcdefghijklmnopqrst'')])))
      = objects (demo_world [(''input/a.mp4'', ''abcdefghijklmnopqrst'')])) \<and>
   script (demo_env [''input/a.mp4''] [] []) (demo_args (- 5))
       (demo_world [(''input/a.mp4'', ''abcdefghijklmnopqrst'')])
     = main (demo_env [''input/a.mp4''] [] []) ''bucket'' ''input'' ''frames'' (- (- 5))
         (demo_world [(''input/a.mp4'', ''abcdefghijklmnopqrst'')])"
proof -
  let ?e = "demo_env [''input/a.mp4''] [] []"
  let ?w = "demo_world [(''input/a.mp4'', ''abcdefghijklmnopqrst'')]"
  have a: "arg_bucket (demo_args n) = Some ''bucket''"
    "arg_input_prefix (demo_args n) = Some ''input''"
    "arg_output_prefix (demo_args n) = Some ''frames''"
    "arg_sampling_rate (demo_args n) = Some n" for n
    by (simp_all add: demo_args_def)
  have z: "(0::int) \<le> 0" and m: "(- 5::int) \<le> 0" by simp_all
  have neg: "(- 5::int) < 0" by simp
  from nonpositive_sampling_rate_not_rejected [OF a [of 0] z, of ?e ?w]
  have zero: "script ?e (demo_args 0) ?w = main ?e ''bucket'' ''input'' ''frames'' 0 ?w \<and>
      (\<exists>cs. calls (world_of (script ?e (demo_args 0) ?w))
         = calls ?w @ ListObjects ''bucket'' ''input'' # cs) \<and>
      objects (world_of (script ?e (demo_args 0) ?w)) = objects ?w"
    by blast
  from nonpositive_sampling_rate_not_rejected [OF a [of "- 5"] m, of ?e ?w] neg
  have "script ?e (demo_args (- 5)) ?w = main ?e ''bucket'' ''input'' ''frames'' (- (- 5)) ?w"
    by blast
  with zero show ?thesis by blast
qed

text \<open>
  The claim of C6 as written fails: with a rate of 0 the run lists the prefix, downloads
  the video and only then raises \<^verbatim>\<open>ZeroDivisionError\<close>, the downloaded file staying in
  \<^verbatim>\<open>/tmp\<close>; with a rate of -5 the run raises nothing and uploads four frames.
\<close>

theorem zero_rate_reaches_download:
  "raised (script (demo_env [''input/a.mp4''] [] []) (demo_args 0)
       (demo_world [(''input/a.mp4'', ''abcdefghijklmnopqrst'')])) = Some ZeroDivisionError \<and>
   calls (world_of (script (demo_env [''input/a.mp4''] [] []) (demo_args 0)
       (demo_world [(''input/a.mp4'', ''abcdefghijklmnopqrst'')])))
     = [ListObjects ''bucket'' ''input'', DownloadFile ''bucket'' ''input/a.mp4'' ''/tmp/a.mp4''] \<and>
   files (world_of (script (demo_env [''input/a.mp4''] [] []) (demo_args 0)
       (demo_world [(''input/a.mp4'', ''abcdefghijklmnopqrst'')]))) ''/tmp/a.mp4''
     = Some ''abcdefghijklmnopqrst'' \<and>
   raised (script (demo_env [''input/a.mp4''] [] []) (demo_args (- 5))
       (demo_world [(''input/a.mp4'', ''abcdefghijklmnopqrst'')])) = None \<and>
   uploaded_keys (calls (world_of (script (demo_env [''input/a.mp4''] [] []) (demo_args (- 5))
       (demo_world [(''input/a.mp4'', ''abcdefghijklmnopqrst'')]))))
     = [''frames/a.mp4_frame_0.jpg'', ''frames/a.mp4_frame_1.jpg'',
        ''frames/a.mp4_frame_2.jpg'', ''frames/a.mp4_frame_3.jpg'']"
  by code_simp

text \<open>
  C7. A video gives \<open>D\<close> frames before its first failed read and the sampling rate is
  \<open>N \<ge> 1\<close>; the download and the uploads succeed. Then the pass returns, it makes exactly
  \<open>c\<close> uploads, where \<open>c\<close> is the ceiling of \<open>D / N\<close> (the number with
  \<open>D \<le> c * N < D + N\<close>), the upload of index \<open>k\<close> stores the frame of ordinal \<open>k * N\<close>,
  which is below \<open>D\<close>, under the key of index \<open>k\<close>, one object for each.
\<close>

theorem every_nth_frame_uploaded:
  assumes nc: "\<not> isComplete w (basename vk)"
    and obj: "objects w (bucket, vk) = Some content"
    and dl: "\<not> download_fails e bucket vk"
    and n: "1 \<le> sampling_rate"
    and D: "D = length (grabbed (decoded e content))"
    and c: "c = (D + nat sampling_rate - 1) div nat sampling_rate"
    and up: "\<forall>k < c. \<not> upload_fails e bucket (upload_key_of output_prefix (basename vk) k)"
  shows "D \<le> c * nat sampling_rate \<and> c * nat sampling_rate < D + nat sampling_rate \<and>
         (\<exists>w'. process_video e bucket output_prefix sampling_rate vk w = Return () w' \<and>
           uploaded_keys (drop (length (calls w)) (calls w')) =
             map (upload_key_of output_prefix (basename vk)) [0..<c] \<and>
           (\<forall>k < c. k * nat sampling_rate < D \<and>
              objects w' (bucket, upload_key_of output_prefix (basename vk) k) =
                Some (imencode e (grabbed (decoded e content) ! (k * nat sampling_rate)))))"
proof -
  let ?fs = "sampled sampling_rate 0 (decoded e content)"
  from n have pos: "0 < sampling_rate" by simp
  from pos have "0 < nat sampling_rate" by simp
  from ceil_bounds [OF this c]
  have ceil: "D \<le> c * nat sampling_rate \<and> c * nat sampling_rate < D + nat sampling_rate" .
  have fs: "?fs = map (\<lambda>k. grabbed (decoded e content) ! (k * nat sampling_rate)) [0..<c]"
    unfolding c D by (rule sampled_every_nth [OF pos])
  then have len: "length ?fs = c" by simp
  from dl up pos len have ok: "pass_ok e bucket output_prefix sampling_rate vk content"
    by (simp add: pass_ok_def)
  let ?w' = "completed e bucket output_prefix sampling_rate vk content w"
  have r: "process_video e bucket output_prefix sampling_rate vk w = Return () ?w'"
    by (rule process_video_ok [OF nc obj ok])
  have keys: "uploaded_keys (drop (length (calls w)) (calls ?w')) =
      map (upload_key_of output_prefix (basename vk)) [0..<c]"
    unfolding uploaded_keys_completed len ..
  have each: "k * nat sampling_rate < D \<and>
      objects ?w' (bucket, upload_key_of output_prefix (basename vk) k) =
        Some (imencode e (grabbed (decoded e content) ! (k * nat sampling_rate)))"
    if k: "k < c" for k
  proof
    from pos k show "k * nat sampling_rate < D"
      unfolding c by (intro index_below) simp_all
    from k len have "k < length ?fs" by simp
    from objects_completed_frame [OF this] k
    show "objects ?w' (bucket, upload_key_of output_prefix (basename vk) k) =
        Some (imencode e (grabbed (decoded e content) ! (k * nat sampling_rate)))"
      by (simp add: fs)
  qed
  from ceil r keys each show ?thesis by blast
qed

theorem every_nth_frame_uploaded_witness:
  "(20::nat) \<le> 4 * nat 5 \<and> (4::nat) * nat 5 < 20 + nat 5 \<and>
   (\<exists>w'. process_video (demo_env [''input/a.mp4''] [] []) ''bucket'' ''frames'' 5 ''input/a.mp4''
            (demo_world [(''input/a.mp4'', ''abcdefghijklmnopqrst'')]) = Return () w' \<and>
         uploaded_keys (drop (length (calls (demo_world [(''input/a.mp4'', ''abcdefghijklmnopqrst'')])))
             (calls w')) =
           map (upload_key_of ''frames'' (basename ''input/a.mp4'')) [0..<4] \<and>
         (\<forall>k < 4. k * nat 5 < 20 \<and>
            objects w' (''bucket'', upload_key_of ''frames'' (basename ''input/a.mp4'') k) =
              Some (imencode (demo_env [''input/a.mp4''] [] [])
                (grabbed (decoded (demo_env [''input/a.mp4''] [] []) ''abcdefghijklmnopqrst'')
                   ! (k * nat 5)))))"
proof -
  let ?e = "demo_env [''input/a.mp4''] [] []"
  let ?w = "demo_world [(''input/a.mp4'', ''abcdefghijklmnopqrst'')]"
  have nc: "\<not> isComplete ?w (basename ''input/a.mp4'')" by code_simp
  have obj: "objects ?w (''bucket'', ''input/a.mp4'') = Some ''abcdefghijklmnopqrst''" by code_simp
  have dl: "\<not> download_fails ?e ''bucket'' ''input/a.mp4''" by code_simp
  have n: "(1::int) \<le> 5" by simp
  have D: "20 = length (grabbed (decoded ?e ''abcdefghijklmnopqrst''))" by code_simp
  have c: "(4::nat) = (20 + nat 5 - 1) div nat 5" by simp
  have up: "\<forall>k < 4. \<not> upload_fails ?e ''bucket'' (upload_key_of ''frames'' (basename ''input/a.mp4'') k)"
    by (simp add: demo_env_def)
  from every_nth_frame_uploaded [OF nc obj dl n D c up] show ?thesis .
qed

text \<open>
  C8. For a video whose pass returned (and was not skipped), the keys of the uploads of
  the pass are, in order, \<^verbatim>\<open>{output_prefix}/{basename}_frame_{i}.jpg\<close> for \<open>i\<close> from 0
  to \<open>k - 1\<close>, where \<open>k\<close> is the number of sampled frames and the basename is
  \<^verbatim>\<open>os.path.basename\<close> of the key of the video; no key occurs twice.
\<close>

theorem upload_keys_contiguous:
  assumes "\<not> isComplete w (basename vk)"
    and "objects w (bucket, vk) = Some content"
    and "process_video e bucket output_prefix sampling_rate vk w = Return () w'"
  shows "uploaded_keys (drop (length (calls w)) (calls w')) =
           map (\<lambda>i. output_prefix @ ''/'' @ basename vk @ ''_frame_'' @ str i @ ''.jpg'')
             [0..<length (sampled sampling_rate 0 (decoded e content))]
         \<and> distinct (uploaded_keys (drop (length (calls w)) (calls w')))"
proof -
  from process_video_Return [OF assms(1,3)] assms(2)
  have w': "w' = completed e bucket output_prefix sampling_rate vk content w" by auto
  have k: "upload_key_of output_prefix (basename vk) =
      (\<lambda>i. output_prefix @ ''/'' @ basename vk @ ''_frame_'' @ str i @ ''.jpg'')"
    by (rule ext) (simp add: upload_key_of_def frame_name_of_def)
  have "inj (upload_key_of output_prefix (basename vk))"
    by (rule injI) (rule upload_key_of_inj)
  then have "distinct (map (upload_key_of output_prefix (basename vk))
      [0..<length (sampled sampling_rate 0 (decoded e content))])"
    by (simp add: distinct_map inj_on_def inj_def)
  then show ?thesis
    unfolding w' uploaded_keys_completed by (simp add: k)
qed

theorem upload_keys_contiguous_witness:
  "uploaded_keys (drop (length (calls (demo_world [(''input/a.mp4'', ''abcdefghijklmnopqrst'')])))
      (calls (world_of (process_video (demo_env [''input/a.mp4''] [] []) ''bucket'' ''frames'' 5
         ''input/a.mp4'' (demo_world [(''input/a.mp4'', ''abcdefghijklmnopqrst'')]))))) =
     map (\<lambda>i. ''frames'' @ ''/'' @ basename ''input/a.mp4'' @ ''_frame_'' @ str i @ ''.jpg'')
       [0..<length (sampled 5 0 (decoded (demo_env [''input/a.mp4''] [] []) ''abcdefghijklmnopqrst''))]
   \<and> distinct (uploaded_keys (drop (length (calls (demo_world [(''input/a.mp4'', ''abcdefghijklmnopqrst'')])))
      (calls (world_of (process_video (demo_env [''input/a.mp4''] [] []) ''bucket'' ''frames'' 5
         ''input/a.mp4'' (demo_world [(''input/a.mp4'', ''abcdefghijklmnopqrst'')]))))))"
proof -
  let ?e = "demo_env [''input/a.mp4''] [] []"
  let ?w = "demo_world [(''input/a.mp4'', ''abcdefghijklmnopqrst'')]"
  have nc: "\<not> isComplete ?w (basename ''input/a.mp4'')" by code_simp
  have obj: "objects ?w (''bucket'', ''input/a.mp4'') = Some ''abcdefghijklmnopqrst''" by code_simp
  have "raised (process_video ?e ''bucket'' ''frames'' 5 ''input/a.mp4'' ?w) = None" by code_simp
  then have r: "process_video ?e ''bucket'' ''frames'' 5 ''input/a.mp4'' ?w
      = Return () (world_of (process_video ?e ''bucket'' ''frames'' 5 ''input/a.mp4'' ?w))"
    by (rule unit_result_Return)
  from upload_keys_contiguous [OF nc obj r] show ?thesis .
qed

text \<open>
  C9. At the start of every iteration of the frame loop, \<^verbatim>\<open>frame_index\<close> is the number
  of ordinals \<open>j < i\<close> with \<^verbatim>\<open>j % sampling_rate == 0\<close>: the index given to an uploaded frame
  is the number of frames uploaded before it.
\<close>

theorem frame_index_counts_emitted:
  "\<forall>(i, frame_index) \<in> set (iterations e bucket output_prefix video_name sampling_rate rs 0 0 w).
     frame_index = length (filter (\<lambda>j. py_mod (int j) sampling_rate = Some 0) [0..<i])"
  using iterations_invariant [of 0 sampling_rate 0] by auto

theorem frame_index_counts_emitted_witness:
  "(6, 2) \<in> set (iterations (demo_env [] [] []) ''bucket'' ''frames'' ''a.mp4'' 5
       (stream (demo_capture (Some ''abcdefg''))) 0 0 (demo_world [])) \<and>
   (2::nat) = length (filter (\<lambda>j. py_mod (int j) 5 = Some 0) [0..<6])"
proof -
  have m: "(6, 2) \<in> set (iterations (demo_env [] [] []) ''bucket'' ''frames'' ''a.mp4'' 5
       (stream (demo_capture (Some ''abcdefg''))) 0 0 (demo_world []))"
    by code_simp
  with frame_index_counts_emitted [of "demo_env [] [] []" "''bucket''" "''frames''" "''a.mp4''" 5
      "stream (demo_capture (Some ''abcdefg''))" "demo_world []"]
  show ?thesis by blast
qed


end
